theory Spec2Isabelle
  imports Complex_Main
begin

section \<open>Stage sequencing of transitions (makeTransition.ts)\<close>

text \<open>
  The transition stages are the seven string literals of \<open>baseStages\<close>. A dispatched
  payload is a \<open>stage option\<close>: \<open>None\<close> is JavaScript's \<open>undefined\<close>, which
  \<open>trigger\<close> passes on when it reads \<open>stages[0]\<close> of an empty array.
\<close>

datatype stage = prep | win | lose | bossPrep | bossWin | bossLose | speed

text \<open>
  A callback supplied by a caller is opaque: it is identified by a number, and running it
  is recorded in the trace of the controller. Callbacks are invoked by the dispatching
  code only; the calls that a stage behaviour makes later (\<open>finishStage\<close> after its
  animation) are calls of the driver.
\<close>

type_synonym action = nat

text \<open>The closures that the source adds to \<open>stageManager.startEv\<close> (lines 70 and 75).\<close>

datatype start_listener =
    OnStartL action
  | DefineStageL stage action

text \<open>The closure that the source adds to \<open>stageManager.endEv\<close> (line 96).\<close>

datatype end_listener = AdvanceL

text \<open>What an observer sees: which callback ran, from which channel, with which payload.\<close>

datatype event =
    OnStartRun "stage option" action
  | StageRun "stage option" action
  | StageStart "stage option" action
  | StageEnd "stage option" action
  | PromptTime action
  | InputPromptTime action
  | TransitionEnd action

text \<open>
  The variables that \<open>createTransition\<close> closes over: the two channels and the sequence
  of \<open>stageManager\<close>, the five channels of the handle, the flags of the camera node,
  and the trace of callbacks run so far. The external stage channels hold the filtering
  closures of \<open>onStageStart\<close> and \<open>onStageEnd\<close>, each a pair of the stage it
  compares with and its action.
\<close>

record transition =
  sm_startEv :: "start_listener list"
  sm_endEv :: "end_listener list"
  stages :: "stage list"
  startEv :: "(stage \<times> action) list"
  endEv :: "(stage \<times> action) list"
  promptEv :: "action list"
  inputEv :: "action list"
  endTransEv :: "action list"
  paused :: bool
  hidden :: bool
  trace :: "event list"

subsection \<open>The event channel\<close>

text \<open>
  Modelled from the spec: the event channel \<open>KEvent\<close> of the kaplay library, which is
  not part of this repository. Section 4.1: subscribing appends a handler, \<open>trigger\<close>
  invokes every subscribed handler in subscription order, synchronously and with the given
  arguments, and \<open>clear\<close> removes all subscriptions without invoking them.
\<close>

definition kev_add :: "'h \<Rightarrow> 'h list \<Rightarrow> 'h list" where
  "kev_add h hs = hs @ [h]"

definition kev_trigger :: "('h \<Rightarrow> 's \<Rightarrow> 's) \<Rightarrow> 'h list \<Rightarrow> 's \<Rightarrow> 's" where
  "kev_trigger call hs s = fold call hs s"

definition kev_clear :: "'h list" where
  "kev_clear = []"

subsection \<open>Array reads\<close>

text \<open>\<open>Array.prototype.indexOf\<close>: the first position of the value, or \<open>-1\<close>.\<close>

fun indexOf :: "stage option \<Rightarrow> stage list \<Rightarrow> int" where
  "indexOf x [] = - 1"
| "indexOf x (y # ys) =
     (if x = Some y then 0
      else (let i = indexOf x ys in if i < 0 then - 1 else i + 1))"

text \<open>An indexed read \<open>xs[i]\<close>: \<open>undefined\<close> outside the array.\<close>

definition elemAt :: "stage list \<Rightarrow> int \<Rightarrow> stage option" where
  "elemAt xs i = (if 0 \<le> i \<and> i < int (length xs) then Some (xs ! nat i) else None)"

subsection \<open>The stage manager\<close>

definition fire :: "event \<Rightarrow> transition \<Rightarrow> transition" where
  "fire e s = s\<lparr>trace := trace s @ [e]\<rparr>"

fun start_listener_call :: "stage option \<Rightarrow> start_listener \<Rightarrow> transition \<Rightarrow> transition" where
  "start_listener_call stage (OnStartL a) s =
     (if stage = elemAt (stages s) 0 then fire (OnStartRun stage a) s else s)"
| "start_listener_call actionStage (DefineStageL stage a) s =
     (if actionStage = Some stage then fire (StageRun actionStage a) s else s)"

fun stage_listener_call ::
  "(stage option \<Rightarrow> action \<Rightarrow> event) \<Rightarrow> stage option \<Rightarrow> stage \<times> action \<Rightarrow> transition \<Rightarrow> transition" where
  "stage_listener_call mk actionStage (stage, a) s =
     (if actionStage = Some stage then fire (mk actionStage a) s else s)"

definition onStart :: "action \<Rightarrow> transition \<Rightarrow> transition" where
  "onStart a s = s\<lparr>sm_startEv := kev_add (OnStartL a) (sm_startEv s)\<rparr>"

definition defineStage :: "stage \<Rightarrow> action \<Rightarrow> transition \<Rightarrow> transition" where
  "defineStage stage a s = s\<lparr>sm_startEv := kev_add (DefineStageL stage a) (sm_startEv s)\<rparr>"

definition enterStage :: "stage option \<Rightarrow> transition \<Rightarrow> transition" where
  "enterStage stage s =
     (let s1 = kev_trigger (start_listener_call stage) (sm_startEv s) s
      in kev_trigger (stage_listener_call StageStart stage) (startEv s1) s1)"

text \<open>The advancement listener (lines 96 to 108).\<close>

definition advance :: "stage option \<Rightarrow> transition \<Rightarrow> transition" where
  "advance stage s =
     (if indexOf stage (stages s) < int (length (stages s)) - 1
      then enterStage (elemAt (stages s) (indexOf stage (stages s) + 1)) s
      else (let s1 = kev_trigger (\<lambda>a. fire (TransitionEnd a)) (endTransEv s) s
            in s1\<lparr>startEv := kev_clear, endEv := kev_clear, inputEv := kev_clear,
                   promptEv := kev_clear, endTransEv := kev_clear,
                   paused := True, hidden := True\<rparr>))"

fun end_listener_call :: "stage option \<Rightarrow> end_listener \<Rightarrow> transition \<Rightarrow> transition" where
  "end_listener_call stage AdvanceL s = advance stage s"

definition finishStage :: "stage \<Rightarrow> transition \<Rightarrow> transition" where
  "finishStage stage s =
     (let s1 = kev_trigger (end_listener_call (Some stage)) (sm_endEv s) s
      in kev_trigger (stage_listener_call StageEnd (Some stage)) (endEv s1) s1)"

definition callPrompt :: "transition \<Rightarrow> transition" where
  "callPrompt s = kev_trigger (\<lambda>a. fire (PromptTime a)) (promptEv s) s"

definition callInput :: "transition \<Rightarrow> transition" where
  "callInput s = kev_trigger (\<lambda>a. fire (InputPromptTime a)) (inputEv s) s"

subsection \<open>The transition definition and the factory\<close>

text \<open>
  A transition definition is the caller's set-up callback. It works on the stage manager
  it is handed, so it is a sequence of calls of the stage manager's methods.
\<close>

datatype sm_call =
    OnStart action
  | DefineStage stage action
  | EnterStage stage
  | FinishStage stage
  | CallPrompt
  | CallInput

fun sm_exec :: "sm_call \<Rightarrow> transition \<Rightarrow> transition" where
  "sm_exec (OnStart a) s = onStart a s"
| "sm_exec (DefineStage stage a) s = defineStage stage a s"
| "sm_exec (EnterStage stage) s = enterStage (Some stage) s"
| "sm_exec (FinishStage stage) s = finishStage stage s"
| "sm_exec CallPrompt s = callPrompt s"
| "sm_exec CallInput s = callInput s"

definition newTransition :: transition where
  "newTransition =
     \<lparr>sm_startEv = [], sm_endEv = [], stages = [],
      startEv = [], endEv = [], promptEv = [], inputEv = [], endTransEv = [],
      paused = False, hidden = False, trace = []\<rparr>"

definition createTransition :: "sm_call list \<Rightarrow> transition" where
  "createTransition transAction =
     (let s0 = newTransition;
          s1 = s0\<lparr>sm_endEv := kev_add AdvanceL (sm_endEv s0)\<rparr>
      in fold sm_exec transAction s1)"

subsection \<open>The handle\<close>

definition get_stages :: "transition \<Rightarrow> stage list" where
  "get_stages s = stages s"

definition trigger :: "stage list \<Rightarrow> transition \<Rightarrow> transition" where
  "trigger stgs s =
     (let s1 = s\<lparr>stages := stgs\<rparr>;
          s2 = enterStage (elemAt stgs 0) s1
      in s2\<lparr>paused := False, hidden := False\<rparr>)"

definition onStageStart :: "stage \<Rightarrow> action \<Rightarrow> transition \<Rightarrow> transition" where
  "onStageStart stage a s = s\<lparr>startEv := kev_add (stage, a) (startEv s)\<rparr>"

definition onStageEnd :: "stage \<Rightarrow> action \<Rightarrow> transition \<Rightarrow> transition" where
  "onStageEnd stage a s = s\<lparr>endEv := kev_add (stage, a) (endEv s)\<rparr>"

definition onTransitionEnd :: "action \<Rightarrow> transition \<Rightarrow> transition" where
  "onTransitionEnd a s = s\<lparr>endTransEv := kev_add a (endTransEv s)\<rparr>"

definition onPromptTime :: "action \<Rightarrow> transition \<Rightarrow> transition" where
  "onPromptTime a s = s\<lparr>promptEv := kev_add a (promptEv s)\<rparr>"

definition onInputPromptTime :: "action \<Rightarrow> transition \<Rightarrow> transition" where
  "onInputPromptTime a s = s\<lparr>inputEv := kev_add a (inputEv s)\<rparr>"

subsection \<open>Reading the trace\<close>

text \<open>
  What one listener of the internal start channel adds to the trace when the payload is
  \<open>st\<close> and the first stage of the sequence is \<open>first\<close>, and what one filtering
  listener of an external stage channel adds.
\<close>

fun start_output :: "stage option \<Rightarrow> stage option \<Rightarrow> start_listener \<Rightarrow> event list" where
  "start_output first st (OnStartL a) = (if st = first then [OnStartRun st a] else [])"
| "start_output first st (DefineStageL stage a) = (if st = Some stage then [StageRun st a] else [])"

fun stage_output :: "(stage option \<Rightarrow> action \<Rightarrow> event) \<Rightarrow> stage option \<Rightarrow> stage \<times> action \<Rightarrow> event list" where
  "stage_output mk st (stage, a) = (if st = Some stage then [mk st a] else [])"

text \<open>The events of entering a stage: the internal listeners first, then the external ones.\<close>

definition entry_events :: "stage option \<Rightarrow> transition \<Rightarrow> event list" where
  "entry_events st s =
     concat (map (start_output (elemAt (stages s) 0) st) (sm_startEv s)) @
     concat (map (stage_output StageStart st) (startEv s))"


definition stage_actions :: "stage \<Rightarrow> start_listener list \<Rightarrow> action list" where
  "stage_actions st hs =
     concat (map (\<lambda>h. case h of OnStartL a \<Rightarrow> [] | DefineStageL stage a \<Rightarrow> if stage = st then [a] else []) hs)"

definition subscribers :: "stage \<Rightarrow> (stage \<times> action) list \<Rightarrow> action list" where
  "subscribers st hs = map snd (filter (\<lambda>h. fst h = st) hs)"


fun is_stageRun :: "event \<Rightarrow> bool" where
  "is_stageRun (StageRun st a) = True"
| "is_stageRun e = False"

text \<open>
  The external events are the runs of subscribers of the handle's five channels; the runs
  of \<open>onStart\<close> actions and stage behaviours are internal to the stage manager.
\<close>

fun is_external :: "event \<Rightarrow> bool" where
  "is_external (OnStartRun st a) = False"
| "is_external (StageRun st a) = False"
| "is_external e = True"

definition external :: "event list \<Rightarrow> event list" where
  "external es = filter is_external es"

text \<open>The payloads of the stage starts in a list of events, internal and external.\<close>

fun start_payload :: "event \<Rightarrow> stage option list" where
  "start_payload (OnStartRun st a) = [st]"
| "start_payload (StageRun st a) = [st]"
| "start_payload (StageStart st a) = [st]"
| "start_payload e = []"

definition start_payloads :: "event list \<Rightarrow> stage option list" where
  "start_payloads es = concat (map start_payload es)"

text \<open>
  Driving a run: the \<open>finishStage\<close> calls in order, each with the events that were
  added to the trace while it ran.
\<close>

fun drive :: "stage list \<Rightarrow> transition \<Rightarrow> (stage \<times> event list) list" where
  "drive [] s = []"
| "drive (x # xs) s =
     (x, drop (length (trace s)) (trace (finishStage x s))) # drive xs (finishStage x s)"

text \<open>
  The payloads that the advancement listener can enter on the stage-end of \<open>x\<close> in the
  sequence \<open>S\<close>: the stage after the first position of \<open>x\<close>, if the listener enters one.
\<close>

definition next_payloads :: "stage \<Rightarrow> stage list \<Rightarrow> stage option set" where
  "next_payloads x S =
     (if indexOf (Some x) S < int (length S) - 1 then {elemAt S (indexOf (Some x) S + 1)} else {})"

text \<open>
  The state after a run has ended: the five channels of the handle are empty and the
  camera node is paused and hidden.
\<close>

definition torn_down :: "transition \<Rightarrow> bool" where
  "torn_down s \<longleftrightarrow>
     startEv s = [] \<and> endEv s = [] \<and> promptEv s = [] \<and> inputEv s = [] \<and>
     endTransEv s = [] \<and> paused s \<and> hidden s"

subsection \<open>Example handles\<close>

text \<open>
  A fresh handle with a subscriber on stage-start and stage-end of \<open>prep\<close> and \<open>win\<close>
  and on transition-end.
\<close>

definition scenario_handle :: transition where
  "scenario_handle =
     onTransitionEnd 5 (onStageEnd win 4 (onStageStart win 3
       (onStageEnd prep 2 (onStageStart prep 1 (createTransition [])))))"

text \<open>
  A handle whose definition registers an \<open>onStart\<close> action and a behaviour of \<open>prep\<close>,
  with subscribers on stage-start of \<open>prep\<close> and on stage-end of \<open>lose\<close>.
\<close>

definition stray_handle :: transition where
  "stray_handle =
     onStageEnd lose 3 (onStageStart prep 2 (createTransition [OnStart 0, DefineStage prep 1]))"

text \<open>A handle whose definition registers a behaviour for \<open>prep\<close> and one for \<open>win\<close>.\<close>

definition aba_handle :: transition where
  "aba_handle = createTransition [DefineStage prep 7, DefineStage win 8]"

text \<open>
  A handle with a behaviour of \<open>prep\<close> and subscribers on stage-start of \<open>prep\<close>,
  stage-end of \<open>win\<close> and transition-end.
\<close>

definition teardown_handle :: transition where
  "teardown_handle =
     onTransitionEnd 4 (onStageEnd win 3 (onStageStart prep 2
       (createTransition [DefineStage prep 1])))"

subsection \<open>Calls after construction\<close>

text \<open>
  The calls that can reach a transition after \<open>createTransition\<close> has returned: the
  methods of the handle, and the methods of the stage manager that stage behaviours call
  while a run is driven.
\<close>

datatype api_call =
    Trigger "stage list"
  | Enter stage
  | Finish stage
  | Prompt
  | InputPrompt
  | SubStageStart stage action
  | SubStageEnd stage action
  | SubPromptTime action
  | SubInputPromptTime action
  | SubTransitionEnd action

fun api_exec :: "api_call \<Rightarrow> transition \<Rightarrow> transition" where
  "api_exec (Trigger stgs) s = trigger stgs s"
| "api_exec (Enter stage) s = enterStage (Some stage) s"
| "api_exec (Finish stage) s = finishStage stage s"
| "api_exec Prompt s = callPrompt s"
| "api_exec InputPrompt s = callInput s"
| "api_exec (SubStageStart stage a) s = onStageStart stage a s"
| "api_exec (SubStageEnd stage a) s = onStageEnd stage a s"
| "api_exec (SubPromptTime a) s = onPromptTime a s"
| "api_exec (SubInputPromptTime a) s = onInputPromptTime a s"
| "api_exec (SubTransitionEnd a) s = onTransitionEnd a s"

text \<open>The listeners that the registering calls of a transition definition add, in order.\<close>

fun registration :: "sm_call \<Rightarrow> start_listener list" where
  "registration (OnStart a) = [OnStartL a]"
| "registration (DefineStage stage a) = [DefineStageL stage a]"
| "registration c = []"

definition registrations :: "sm_call list \<Rightarrow> start_listener list" where
  "registrations transAction = concat (map registration transAction)"

section \<open>The conductor (conductor.ts)\<close>










section \<open>Properties\<close>

subsection \<open>Positions in the sequence\<close>

lemma indexOf_lower: "- 1 \<le> indexOf x xs"
  by (induction xs) (auto simp: Let_def)

lemma indexOf_upper: "indexOf x xs < int (length xs)"
  by (induction xs) (auto simp: Let_def)

lemma indexOf_None: "indexOf None xs = - 1"
  by (induction xs) (auto simp: Let_def)

lemma indexOf_absent: "y \<notin> set xs \<Longrightarrow> indexOf (Some y) xs = - 1"
  by (induction xs) (auto simp: Let_def)


lemma indexOf_nth: "0 \<le> indexOf (Some y) xs \<Longrightarrow> xs ! nat (indexOf (Some y) xs) = y"
proof (induction xs)
  case Nil
  then show ?case by simp
next
  case (Cons a xs)
  show ?case
  proof (cases "y = a")
    case True
    then show ?thesis by simp
  next
    case False
    with Cons.prems have nn: "0 \<le> indexOf (Some y) xs"
      by (auto simp: Let_def split: if_splits)
    with Cons.IH have "xs ! nat (indexOf (Some y) xs) = y" by simp
    with False nn show ?thesis
      by (simp add: Let_def nat_add_distrib)
  qed
qed

lemma indexOf_last:
  assumes "xs \<noteq> []" and "last xs \<notin> set (butlast xs)"
  shows "indexOf (Some (last xs)) xs = int (length xs) - 1"
  using assms
proof (induction xs)
  case Nil
  then show ?case by simp
next
  case (Cons a xs)
  show ?case
  proof (cases "xs = []")
    case True
    then show ?thesis by simp
  next
    case False
    with Cons.prems have ne: "last xs \<noteq> a" and nb: "last xs \<notin> set (butlast xs)"
      by auto
    from Cons.IH[OF False nb] have "indexOf (Some (last xs)) xs = int (length xs) - 1" .
    with False ne show ?thesis by (simp add: Let_def)
  qed
qed

lemma indexOf_first_occurrence:
  "0 \<le> indexOf (Some y) xs \<Longrightarrow> y \<notin> set (take (nat (indexOf (Some y) xs)) xs)"
proof (induction xs)
  case Nil
  then show ?case by simp
next
  case (Cons a xs)
  show ?case
  proof (cases "y = a")
    case True
    then show ?thesis by simp
  next
    case False
    with Cons.prems have nn: "0 \<le> indexOf (Some y) xs"
      by (auto simp: Let_def split: if_splits)
    with Cons.IH have "y \<notin> set (take (nat (indexOf (Some y) xs)) xs)" by simp
    with False nn show ?thesis
      by (simp add: Let_def nat_add_distrib)
  qed
qed

subsection \<open>Dispatch as trace extension\<close>

lemma start_listener_call_trace:
  "start_listener_call st h s = s\<lparr>trace := trace s @ start_output (elemAt (stages s) 0) st h\<rparr>"
  by (cases h) (simp_all add: fire_def)

lemma stage_listener_call_trace:
  "stage_listener_call mk st h s = s\<lparr>trace := trace s @ stage_output mk st h\<rparr>"
  by (cases h) (simp add: fire_def)

lemma fold_start_listeners:
  "fold (start_listener_call st) hs s =
     s\<lparr>trace := trace s @ concat (map (start_output (elemAt (stages s) 0) st) hs)\<rparr>"
  by (induction hs arbitrary: s) (simp_all add: start_listener_call_trace)

lemma fold_stage_listeners:
  "fold (stage_listener_call mk st) hs s =
     s\<lparr>trace := trace s @ concat (map (stage_output mk st) hs)\<rparr>"
  by (induction hs arbitrary: s) (simp_all add: stage_listener_call_trace)

lemma fold_fire:
  "fold (\<lambda>a. fire (mk a)) as s = s\<lparr>trace := trace s @ map mk as\<rparr>"
  by (induction as arbitrary: s) (simp_all add: fire_def)

lemma enterStage_trace:
  "enterStage st s = s\<lparr>trace := trace s @ entry_events st s\<rparr>"
  by (simp add: enterStage_def kev_trigger_def Let_def fold_start_listeners
      fold_stage_listeners entry_events_def)

lemma advance_cases:
  "advance st s =
     (if indexOf st (stages s) < int (length (stages s)) - 1
      then s\<lparr>trace := trace s @ entry_events (elemAt (stages s) (indexOf st (stages s) + 1)) s\<rparr>
      else s\<lparr>trace := trace s @ map TransitionEnd (endTransEv s),
             startEv := [], endEv := [], inputEv := [], promptEv := [], endTransEv := [],
             paused := True, hidden := True\<rparr>)"
  by (simp add: advance_def enterStage_trace kev_trigger_def kev_clear_def fold_fire Let_def)

subsection \<open>Two runs evaluated\<close>

lemmas api_defs =
  kev_add_def kev_trigger_def kev_clear_def fire_def elemAt_def onStart_def defineStage_def
  enterStage_def advance_def finishStage_def callPrompt_def callInput_def newTransition_def
  createTransition_def trigger_def onStageStart_def onStageEnd_def onTransitionEnd_def
  onPromptTime_def onInputPromptTime_def get_stages_def

text \<open>
  Claim C1, evaluated on the code. The handle has one subscriber on each of stage-start
  and stage-end of \<open>prep\<close> and \<open>win\<close> (actions 1 to 4) and one on transition-end
  (action 5). After \<open>trigger(["prep","win"])\<close>, \<open>finishStage("prep")\<close> and
  \<open>finishStage("win")\<close> the subscribers have seen four events, not the five of the
  claim: \<open>finishStage\<close> runs the advancement listener before it notifies the external
  stage-end channel, so stage-start of \<open>win\<close> comes before stage-end of \<open>prep\<close>, and
  the stage-end of the last stage is dispatched to a channel that was just cleared.
\<close>

theorem prep_win_scenario_trace:
  "trace (finishStage win (finishStage prep (trigger [prep, win] scenario_handle))) =
     [StageStart (Some prep) 1, StageStart (Some win) 3, StageEnd (Some prep) 2, TransitionEnd 5]"
  by (simp add: scenario_handle_def api_defs)

text \<open>
  Claim C3, evaluated on the code. The sequence is \<open>["prep","win"]\<close> and \<open>lose\<close> is
  not in it. \<open>indexOf\<close> answers \<open>-1\<close>, which is below \<open>length - 1\<close>, so
  \<open>finishStage("lose")\<close> enters the stage at position \<open>-1 + 1 = 0\<close> again: the
  \<open>onStart\<close> action, the behaviour of \<open>prep\<close> and the stage-start subscriber of
  \<open>prep\<close> all run a second time, and the stage-end subscriber of \<open>lose\<close> runs.
\<close>

theorem finish_unknown_stage_restarts:
  "trace (trigger [prep, win] stray_handle) =
     [OnStartRun (Some prep) 0, StageRun (Some prep) 1, StageStart (Some prep) 2] \<and>
   trace (finishStage lose (trigger [prep, win] stray_handle)) =
     trace (trigger [prep, win] stray_handle) @
     [OnStartRun (Some prep) 0, StageRun (Some prep) 1, StageStart (Some prep) 2,
      StageEnd (Some lose) 3]"
  by (simp add: stray_handle_def api_defs)

subsection \<open>What trigger does\<close>




lemma concat_stage_output:
  "concat (map (stage_output mk (Some st)) hs) = map (mk (Some st)) (subscribers st hs)"
  by (induction hs) (auto simp: subscribers_def)

text \<open>
  Claim C6. For a non-empty list \<open>S\<close>, \<open>trigger(S)\<close> makes \<open>S\<close> the sequence,
  whatever the sequence was, so that the \<open>stages\<close> getter of the handle answers \<open>S\<close>;
  it unpauses and unhides the camera node; and it enters the first stage of \<open>S\<close>: the
  listeners of the internal start channel run in registration order (every \<open>onStart\<close>
  action, and the behaviours defined for \<open>hd S\<close>), then the stage-start subscribers of
  \<open>hd S\<close> in subscription order.
\<close>

theorem trigger_replaces_and_enters:
  assumes "S \<noteq> []"
  shows "get_stages (trigger S s) = S \<and> \<not> paused (trigger S s) \<and> \<not> hidden (trigger S s) \<and>
     trace (trigger S s) =
       trace s @
       concat (map (\<lambda>h. case h of
                  OnStartL a \<Rightarrow> [OnStartRun (Some (hd S)) a]
                | DefineStageL stage a \<Rightarrow> if stage = hd S then [StageRun (Some (hd S)) a] else [])
               (sm_startEv s)) @
       map (StageStart (Some (hd S))) (subscribers (hd S) (startEv s))"
proof -
  from assms have first: "elemAt S 0 = Some (hd S)"
    by (cases S) (simp_all add: elemAt_def)
  have out: "start_output (Some (hd S)) (Some (hd S)) =
      (\<lambda>h. case h of OnStartL a \<Rightarrow> [OnStartRun (Some (hd S)) a]
        | DefineStageL stage a \<Rightarrow> if stage = hd S then [StageRun (Some (hd S)) a] else [])"
    by (rule ext) (auto split: start_listener.splits)
  show ?thesis
    by (simp add: trigger_def get_stages_def Let_def enterStage_trace entry_events_def first
        out concat_stage_output)
qed

text \<open>
  Claim C6 at a second run \<open>["win","lose"]\<close> of a handle whose sequence was
  \<open>["prep"]\<close>.
\<close>

theorem trigger_replaces_and_enters_witness:
  "[win, lose] \<noteq> [] \<and>
   get_stages (trigger [win, lose] (trigger [prep] stray_handle)) = [win, lose] \<and>
   trace (trigger [win, lose] (trigger [prep] stray_handle)) =
     trace (trigger [prep] stray_handle) @ [OnStartRun (Some win) 0]"
  using trigger_replaces_and_enters [of "[win, lose]" "trigger [prep] stray_handle"]
  by (simp add: stray_handle_def api_defs subscribers_def)

subsection \<open>What the operations keep\<close>

lemma advance_stages [simp]: "stages (advance st s) = stages s"
  by (simp add: advance_cases)

lemma advance_sm_startEv [simp]: "sm_startEv (advance st s) = sm_startEv s"
  by (simp add: advance_cases)

lemma advance_sm_endEv [simp]: "sm_endEv (advance st s) = sm_endEv s"
  by (simp add: advance_cases)

lemma fold_end_listeners_inv:
  assumes step: "\<And>t. P t \<Longrightarrow> P (advance st t)" and init: "P s"
  shows "P (fold (end_listener_call st) hs s)"
  using init
proof (induction hs arbitrary: s)
  case Nil
  then show ?case by simp
next
  case (Cons h hs)
  from Cons.prems have "P (end_listener_call st h s)"
    by (cases h) (simp add: step)
  then show ?case by (simp add: Cons.IH)
qed

lemma finishStage_trace:
  "finishStage x s =
     (fold (end_listener_call (Some x)) (sm_endEv s) s)
       \<lparr>trace := trace (fold (end_listener_call (Some x)) (sm_endEv s) s) @
          concat (map (stage_output StageEnd (Some x))
            (endEv (fold (end_listener_call (Some x)) (sm_endEv s) s)))\<rparr>"
  by (simp add: finishStage_def kev_trigger_def Let_def fold_stage_listeners)

lemma finishStage_stages [simp]: "stages (finishStage x s) = stages s"
proof -
  have "stages (fold (end_listener_call (Some x)) hs s) = stages s" for hs
    by (rule fold_end_listeners_inv) simp_all
  then show ?thesis by (simp add: finishStage_trace)
qed

lemma finishStage_sm_startEv [simp]: "sm_startEv (finishStage x s) = sm_startEv s"
proof -
  have "sm_startEv (fold (end_listener_call (Some x)) hs s) = sm_startEv s" for hs
    by (rule fold_end_listeners_inv) simp_all
  then show ?thesis by (simp add: finishStage_trace)
qed

lemma finishStage_sm_endEv [simp]: "sm_endEv (finishStage x s) = sm_endEv s"
proof -
  have "sm_endEv (fold (end_listener_call (Some x)) hs s) = sm_endEv s" for hs
    by (rule fold_end_listeners_inv) simp_all
  then show ?thesis by (simp add: finishStage_trace)
qed

lemma trigger_sm_startEv [simp]: "sm_startEv (trigger S s) = sm_startEv s"
  by (simp add: trigger_def Let_def enterStage_trace)

lemma trigger_sm_endEv [simp]: "sm_endEv (trigger S s) = sm_endEv s"
  by (simp add: trigger_def Let_def enterStage_trace)

lemma trigger_stages [simp]: "stages (trigger S s) = S"
  by (simp add: trigger_def Let_def enterStage_trace)

subsection \<open>Behaviours of defineStage\<close>

lemma stageRun_start_output:
  "filter is_stageRun (concat (map (start_output first (Some st)) hs)) =
     map (StageRun (Some st)) (stage_actions st hs)"
  by (induction hs) (auto simp: stage_actions_def split: start_listener.splits)

lemma stageRun_stage_output:
  "filter is_stageRun (concat (map (stage_output StageStart st) hs)) = []"
  by (induction hs) auto

text \<open>
  Claim C5. \<open>defineStage(st, a)\<close> adds \<open>a\<close> to the actions registered for \<open>st\<close>.
  Entering a stage runs every action that \<open>defineStage\<close> registered for it,
  in registration order, whatever the state of the controller; and neither entering a
  stage, nor \<open>trigger\<close>, nor \<open>finishStage\<close> changes the internal start channel, so a
  registration made once stays for every later run. For the sequence
  \<open>[prep, win, prep]\<close>, driven by \<open>finishStage\<close> on each stage in order, the
  behaviour of \<open>prep\<close> (action 7) runs twice. (The last \<open>finishStage("prep")\<close> finds
  \<open>prep\<close> at position 0 and enters \<open>win\<close> again.)
\<close>

theorem defineStage_runs_on_every_entry:
  "stage_actions st (sm_startEv (defineStage st a s)) = stage_actions st (sm_startEv s) @ [a] \<and>
   filter is_stageRun (trace (enterStage (Some st) s)) =
     filter is_stageRun (trace s) @ map (StageRun (Some st)) (stage_actions st (sm_startEv s)) \<and>
   sm_startEv (enterStage (Some st) s) = sm_startEv s \<and>
   sm_startEv (trigger S s) = sm_startEv s \<and>
   sm_startEv (finishStage x s) = sm_startEv s \<and>
   trace (finishStage prep (finishStage win (finishStage prep
       (trigger [prep, win, prep] aba_handle)))) =
     [StageRun (Some prep) 7, StageRun (Some win) 8, StageRun (Some prep) 7,
      StageRun (Some win) 8]"
proof -
  have a: "filter is_stageRun (trace (enterStage (Some st) s)) =
     filter is_stageRun (trace s) @ map (StageRun (Some st)) (stage_actions st (sm_startEv s))"
    by (simp add: enterStage_trace entry_events_def stageRun_start_output stageRun_stage_output)
  have b: "sm_startEv (enterStage (Some st) s) = sm_startEv s"
    by (simp add: enterStage_trace)
  have c: "trace (finishStage prep (finishStage win (finishStage prep
       (trigger [prep, win, prep] aba_handle)))) =
     [StageRun (Some prep) 7, StageRun (Some win) 8, StageRun (Some prep) 7,
      StageRun (Some win) 8]"
    by (simp add: aba_handle_def api_defs)
  have d: "stage_actions st (sm_startEv (defineStage st a s)) =
      stage_actions st (sm_startEv s) @ [a]"
    by (simp add: defineStage_def kev_add_def stage_actions_def)
  from a b c d show ?thesis by simp
qed

subsection \<open>Teardown at the last stage\<close>

lemma external_start_output1:
  "filter is_external (start_output first st h) = []"
  by (cases h) simp_all

lemma external_start_output:
  "external (concat (map (start_output first st) hs)) = []"
  by (induction hs) (simp_all add: external_def external_start_output1)

lemma external_append [simp]: "external (xs @ ys) = external xs @ external ys"
  by (simp add: external_def)

lemma external_Nil [simp]: "external [] = []"
  by (simp add: external_def)

lemma enterStage_torn_down:
  assumes "torn_down s"
  shows "torn_down (enterStage st s) \<and> external (trace (enterStage st s)) = external (trace s)"
  using assms
  by (simp add: torn_down_def enterStage_trace entry_events_def external_start_output)

lemma advance_torn_down:
  assumes "torn_down s"
  shows "torn_down (advance st s) \<and> external (trace (advance st s)) = external (trace s)"
  using assms
  by (simp add: torn_down_def advance_cases entry_events_def external_start_output)

lemma finishStage_torn_down:
  assumes "torn_down s"
  shows "torn_down (finishStage x s) \<and> external (trace (finishStage x s)) = external (trace s)"
proof -
  let ?t = "fold (end_listener_call (Some x)) (sm_endEv s) s"
  have "torn_down ?t \<and> external (trace ?t) = external (trace s)"
    by (rule fold_end_listeners_inv) (use assms advance_torn_down in auto)
  then show ?thesis
    by (simp add: finishStage_trace torn_down_def)
qed

lemma sm_exec_torn_down:
  assumes "torn_down s"
  shows "torn_down (sm_exec c s) \<and> external (trace (sm_exec c s)) = external (trace s)"
proof (cases c)
  case (OnStart a)
  with assms show ?thesis by (simp add: onStart_def torn_down_def)
next
  case (DefineStage st a)
  with assms show ?thesis by (simp add: defineStage_def torn_down_def)
next
  case (EnterStage st)
  with assms show ?thesis by (simp add: enterStage_torn_down)
next
  case (FinishStage st)
  with assms show ?thesis by (simp add: finishStage_torn_down)
next
  case CallPrompt
  with assms show ?thesis by (simp add: callPrompt_def kev_trigger_def torn_down_def)
next
  case CallInput
  with assms show ?thesis by (simp add: callInput_def kev_trigger_def torn_down_def)
qed

lemma fold_sm_exec_torn_down:
  "torn_down s \<Longrightarrow>
     torn_down (fold sm_exec calls s) \<and>
     external (trace (fold sm_exec calls s)) = external (trace s)"
proof (induction calls arbitrary: s)
  case Nil
  then show ?case by simp
next
  case (Cons c calls)
  from sm_exec_torn_down[OF Cons.prems]
  have td: "torn_down (sm_exec c s)" and ex: "external (trace (sm_exec c s)) = external (trace s)"
    by simp_all
  from Cons.IH[OF td] ex show ?case by simp
qed

lemma finish_last_state:
  assumes one: "sm_endEv s = [AdvanceL]" and ne: "stages s \<noteq> []"
    and last: "st = last (stages s)" and first: "st \<notin> set (butlast (stages s))"
  shows "finishStage st s =
     s\<lparr>trace := trace s @ map TransitionEnd (endTransEv s),
       startEv := [], endEv := [], inputEv := [], promptEv := [], endTransEv := [],
       paused := True, hidden := True\<rparr>"
proof -
  from ne last first have "indexOf (Some st) (stages s) = int (length (stages s)) - 1"
    by (simp add: indexOf_last)
  then show ?thesis
    by (simp add: finishStage_trace one advance_cases)
qed

text \<open>
  Claim C2 as stated fails: the internal start and end channels of the stage manager are
  not cleared when the last stage finishes. After the run \<open>["prep"]\<close> has ended, the
  behaviour of \<open>prep\<close> and the advancement listener are still subscribed, and entering
  \<open>prep\<close> runs the behaviour again.
\<close>

theorem internal_channels_survive_teardown:
  "sm_startEv (finishStage prep (trigger [prep] teardown_handle)) = [DefineStageL prep 1] \<and>
   sm_endEv (finishStage prep (trigger [prep] teardown_handle)) = [AdvanceL] \<and>
   trace (enterStage (Some prep) (finishStage prep (trigger [prep] teardown_handle))) =
     trace (finishStage prep (trigger [prep] teardown_handle)) @ [StageRun (Some prep) 1]"
  by (simp add: teardown_handle_def api_defs)

text \<open>
  Claim C2, amended. When \<open>finishStage\<close> is called for the stage at the last position of
  a non-empty sequence, and that stage does not occur earlier in it, the controller fires
  transition-end, clears the four external lifecycle channels and the transition-end
  channel, and pauses and hides the camera node. The internal start and end channels are
  kept. From then on no call of the stage manager (\<open>enterStage\<close>, \<open>finishStage\<close>,
  \<open>callPrompt\<close>, \<open>callInput\<close>, \<open>onStart\<close>, \<open>defineStage\<close>) runs an external
  subscriber or changes the external channels and the flags; only the behaviours of
  \<open>onStart\<close> and \<open>defineStage\<close> can still run.
\<close>

theorem finish_last_stage_teardown:
  assumes "sm_endEv s = [AdvanceL]" and "stages s \<noteq> []"
    and "st = last (stages s)" and "st \<notin> set (butlast (stages s))"
  shows "trace (finishStage st s) = trace s @ map TransitionEnd (endTransEv s) \<and>
     startEv (finishStage st s) = [] \<and> endEv (finishStage st s) = [] \<and>
     promptEv (finishStage st s) = [] \<and> inputEv (finishStage st s) = [] \<and>
     endTransEv (finishStage st s) = [] \<and>
     paused (finishStage st s) \<and> hidden (finishStage st s) \<and>
     sm_startEv (finishStage st s) = sm_startEv s \<and>
     sm_endEv (finishStage st s) = sm_endEv s \<and>
     torn_down (fold sm_exec calls (finishStage st s)) \<and>
     external (trace (fold sm_exec calls (finishStage st s))) =
       external (trace (finishStage st s))"
proof -
  note eq = finish_last_state[OF assms]
  have td: "torn_down (finishStage st s)"
    by (simp add: eq torn_down_def)
  from fold_sm_exec_torn_down[OF td, of calls] show ?thesis
    by (simp add: eq)
qed

text \<open>
  The amended claim C2 at the run \<open>["prep","win"]\<close>.
\<close>

theorem finish_last_stage_teardown_witness:
  "sm_endEv (trigger [prep, win] teardown_handle) = [AdvanceL] \<and>
   stages (trigger [prep, win] teardown_handle) \<noteq> [] \<and>
   win = last (stages (trigger [prep, win] teardown_handle)) \<and>
   win \<notin> set (butlast (stages (trigger [prep, win] teardown_handle))) \<and>
   trace (finishStage win (trigger [prep, win] teardown_handle)) =
     [StageRun (Some prep) 1, StageStart (Some prep) 2, TransitionEnd 4] \<and>
   external (trace (fold sm_exec [EnterStage prep, FinishStage win, EnterStage win]
       (finishStage win (trigger [prep, win] teardown_handle)))) =
     [StageStart (Some prep) 2, TransitionEnd 4]"
proof -
  have h1: "sm_endEv (trigger [prep, win] teardown_handle) = [AdvanceL]"
    by (simp add: teardown_handle_def api_defs)
  have h2: "stages (trigger [prep, win] teardown_handle) \<noteq> []"
    by simp
  have h3: "win = last (stages (trigger [prep, win] teardown_handle))"
    by simp
  have h4: "win \<notin> set (butlast (stages (trigger [prep, win] teardown_handle)))"
    by simp
  have tr: "trace (trigger [prep, win] teardown_handle) =
      [StageRun (Some prep) 1, StageStart (Some prep) 2]"
    by (simp add: teardown_handle_def api_defs)
  have et: "endTransEv (trigger [prep, win] teardown_handle) = [4]"
    by (simp add: teardown_handle_def api_defs)
  from finish_last_stage_teardown[OF h1 h2 h3 h4,
      of "[EnterStage prep, FinishStage win, EnterStage win]"]
  show ?thesis
    using h1 h2 h3 h4 by (simp add: tr et external_def)
qed

subsection \<open>Actions of onStart\<close>














subsection \<open>Which stage a stage-end dispatch enters\<close>

lemma start_payloads_append [simp]:
  "start_payloads (xs @ ys) = start_payloads xs @ start_payloads ys"
  by (simp add: start_payloads_def)

lemma start_payloads_Nil [simp]: "start_payloads [] = []"
  by (simp add: start_payloads_def)

lemma start_payloads_start_output1:
  "set (concat (map start_payload (start_output first st h))) \<subseteq> {st}"
  by (cases h) simp_all

lemma start_payloads_start_output:
  "set (start_payloads (concat (map (start_output first st) hs))) \<subseteq> {st}"
  using start_payloads_start_output1
  by (induction hs) (simp_all add: start_payloads_def)

lemma start_payloads_StageStart1:
  "set (concat (map start_payload (stage_output StageStart st h))) \<subseteq> {st}"
  by (cases h) simp_all

lemma start_payloads_StageStart:
  "set (start_payloads (concat (map (stage_output StageStart st) hs))) \<subseteq> {st}"
  using start_payloads_StageStart1
  by (induction hs) (simp_all add: start_payloads_def)

lemma start_payloads_StageEnd1:
  "concat (map start_payload (stage_output StageEnd st h)) = []"
  by (cases h) simp_all

lemma start_payloads_StageEnd:
  "start_payloads (concat (map (stage_output StageEnd st) hs)) = []"
  by (induction hs) (simp_all add: start_payloads_def start_payloads_StageEnd1)

lemma start_payloads_TransitionEnd:
  "start_payloads (map TransitionEnd as) = []"
  by (induction as) (simp_all add: start_payloads_def)

lemma start_payloads_entry_events:
  "set (start_payloads (entry_events st s)) \<subseteq> {st}"
  using start_payloads_start_output[of "elemAt (stages s) 0" st "sm_startEv s"]
    start_payloads_StageStart[of st "startEv s"]
  by (simp add: entry_events_def)

lemma advance_new_events:
  "\<exists>es. trace (advance (Some x) t) = trace t @ es \<and>
     set (start_payloads es) \<subseteq> next_payloads x (stages t)"
proof (cases "indexOf (Some x) (stages t) < int (length (stages t)) - 1")
  case True
  let ?y = "elemAt (stages t) (indexOf (Some x) (stages t) + 1)"
  from True have "trace (advance (Some x) t) = trace t @ entry_events ?y t"
    by (simp add: advance_cases)
  moreover from True have "set (start_payloads (entry_events ?y t)) \<subseteq> next_payloads x (stages t)"
    using start_payloads_entry_events[of ?y t] by (simp add: next_payloads_def)
  ultimately show ?thesis by blast
next
  case False
  then have "trace (advance (Some x) t) = trace t @ map TransitionEnd (endTransEv t)"
    by (simp add: advance_cases)
  moreover have "set (start_payloads (map TransitionEnd (endTransEv t))) \<subseteq> next_payloads x (stages t)"
    by (simp add: start_payloads_TransitionEnd)
  ultimately show ?thesis by blast
qed

lemma finishStage_new_events:
  "\<exists>es. trace (finishStage x s) = trace s @ es \<and>
     set (start_payloads es) \<subseteq> next_payloads x (stages s)"
proof -
  let ?t = "fold (end_listener_call (Some x)) (sm_endEv s) s"
  have "stages ?t = stages s \<and>
    (\<exists>es. trace ?t = trace s @ es \<and> set (start_payloads es) \<subseteq> next_payloads x (stages s))"
  proof (rule fold_end_listeners_inv)
    show "stages s = stages s \<and>
      (\<exists>es. trace s = trace s @ es \<and> set (start_payloads es) \<subseteq> next_payloads x (stages s))"
      by simp
  next
    fix t :: transition
    assume inv: "stages t = stages s \<and>
      (\<exists>es. trace t = trace s @ es \<and> set (start_payloads es) \<subseteq> next_payloads x (stages s))"
    then obtain es where es: "trace t = trace s @ es"
      and sub: "set (start_payloads es) \<subseteq> next_payloads x (stages s)"
      by blast
    from advance_new_events[of x t] inv obtain fs
      where fs: "trace (advance (Some x) t) = trace t @ fs"
        and subf: "set (start_payloads fs) \<subseteq> next_payloads x (stages s)"
      by auto
    from es fs have "trace (advance (Some x) t) = trace s @ (es @ fs)" by simp
    moreover from sub subf have "set (start_payloads (es @ fs)) \<subseteq> next_payloads x (stages s)"
      by simp
    ultimately show "stages (advance (Some x) t) = stages s \<and>
      (\<exists>es. trace (advance (Some x) t) = trace s @ es \<and>
         set (start_payloads es) \<subseteq> next_payloads x (stages s))"
      using inv by (intro conjI exI[of _ "es @ fs"]) simp_all
  qed
  then obtain es where es: "trace ?t = trace s @ es"
    and sub: "set (start_payloads es) \<subseteq> next_payloads x (stages s)"
    by blast
  let ?fs = "concat (map (stage_output StageEnd (Some x)) (endEv ?t))"
  from es have "trace (finishStage x s) = trace s @ (es @ ?fs)"
    by (simp add: finishStage_trace)
  moreover from sub have "set (start_payloads (es @ ?fs)) \<subseteq> next_payloads x (stages s)"
    by (simp add: start_payloads_StageEnd)
  ultimately show ?thesis by blast
qed

lemma drive_payloads:
  "(x, es) \<in> set (drive xs s) \<Longrightarrow> set (start_payloads es) \<subseteq> next_payloads x (stages s)"
proof (induction xs arbitrary: s)
  case Nil
  then show ?case by simp
next
  case (Cons a xs)
  from Cons.prems consider
    (here) "x = a" "es = drop (length (trace s)) (trace (finishStage a s))"
    | (later) "(x, es) \<in> set (drive xs (finishStage a s))"
    by auto
  then show ?case
  proof cases
    case here
    from finishStage_new_events[of a s] obtain fs
      where fs: "trace (finishStage a s) = trace s @ fs"
        and sub: "set (start_payloads fs) \<subseteq> next_payloads a (stages s)"
      by blast
    from fs here have "es = fs" by simp
    with sub here show ?thesis by simp
  next
    case later
    from Cons.IH[OF later] show ?thesis by simp
  qed
qed

lemma next_payloads_position:
  assumes "y \<in> next_payloads x S"
  shows "\<exists>j. j < length S \<and> y = Some (S ! j) \<and> int j = indexOf (Some x) S + 1 \<and>
     (0 < j \<longrightarrow> S ! (j - 1) = x)"
proof -
  let ?i = "indexOf (Some x) S"
  from assms have lt: "?i < int (length S) - 1" and y: "y = elemAt S (?i + 1)"
    by (simp_all add: next_payloads_def split: if_splits)
  have lo: "- 1 \<le> ?i" by (rule indexOf_lower)
  let ?j = "nat (?i + 1)"
  from lt lo have j: "?j < length S" by simp
  from lt lo y have yj: "y = Some (S ! ?j)" by (simp add: elemAt_def)
  from lo have ij: "int ?j = ?i + 1" by simp
  have pred: "0 < ?j \<longrightarrow> S ! (?j - 1) = x"
  proof
    assume "0 < ?j"
    then have nn: "0 \<le> ?i" by simp
    then have "S ! nat ?i = x" by (rule indexOf_nth)
    moreover from nn have "?j - 1 = nat ?i" by simp
    ultimately show "S ! (?j - 1) = x" by simp
  qed
  show ?thesis
  proof (intro exI[of _ ?j] conjI)
    show "?j < length S" by (rule j)
    show "y = Some (S ! ?j)" by (rule yj)
    show "int ?j = ?i + 1" by (rule ij)
    show "0 < ?j \<longrightarrow> S ! (?j - 1) = x" by (rule pred)
  qed
qed

text \<open>
  Claim C7. In a run that is a \<open>trigger(S)\<close> followed by any \<open>finishStage\<close> calls,
  \<open>trigger\<close> starts only the stage at position 0, and every stage start that happens
  during a call \<open>finishStage(x)\<close> is the start of the stage at position
  \<open>indexOf(x) + 1\<close>: when that is a position \<open>j > 0\<close>, the stage at position
  \<open>j - 1\<close> is the finished stage \<open>x\<close>. So with pairwise distinct stages, the stage
  at position \<open>i + 1\<close> starts only in the stage-end dispatch of the stage at position
  \<open>i\<close>.
\<close>

theorem stage_entered_by_predecessor_end:
  assumes "(x, es) \<in> set (drive xs (trigger S s))" and "y \<in> set (start_payloads es)"
  shows "set (start_payloads (drop (length (trace s)) (trace (trigger S s)))) \<subseteq> {elemAt S 0} \<and>
     (\<exists>j. j < length S \<and> y = Some (S ! j) \<and> int j = indexOf (Some x) S + 1 \<and>
        (0 < j \<longrightarrow> S ! (j - 1) = x)) \<and>
     (distinct S \<longrightarrow> (\<forall>i. Suc i < length S \<and> y = Some (S ! Suc i) \<longrightarrow> x = S ! i))"
proof -
  have trig: "set (start_payloads (drop (length (trace s)) (trace (trigger S s)))) \<subseteq> {elemAt S 0}"
    using start_payloads_entry_events[of "elemAt S 0" "s\<lparr>stages := S\<rparr>"]
    by (simp add: trigger_def Let_def enterStage_trace)
  from drive_payloads[OF assms(1)] assms(2) have "y \<in> next_payloads x S"
    by auto
  from next_payloads_position[OF this] obtain j where j: "j < length S"
    and yj: "y = Some (S ! j)" and pos: "int j = indexOf (Some x) S + 1"
    and pred: "0 < j \<longrightarrow> S ! (j - 1) = x"
    by blast
  have uniq: "x = S ! i" if d: "distinct S" and i: "Suc i < length S" and yi: "y = Some (S ! Suc i)" for i
  proof -
    from yj yi have "S ! j = S ! Suc i" by simp
    with d j i have "j = Suc i" by (simp add: nth_eq_iff_index_eq)
    with pred show ?thesis by simp
  qed
  have ex: "\<exists>j. j < length S \<and> y = Some (S ! j) \<and> int j = indexOf (Some x) S + 1 \<and>
        (0 < j \<longrightarrow> S ! (j - 1) = x)"
    using j yj pos pred by (intro exI[of _ j]) simp
  have all: "distinct S \<longrightarrow> (\<forall>i. Suc i < length S \<and> y = Some (S ! Suc i) \<longrightarrow> x = S ! i)"
    using uniq by simp
  from trig ex all show ?thesis by (intro conjI)
qed

text \<open>
  Claim C7 at the run \<open>["prep","win"]\<close>: \<open>win\<close> starts during
  \<open>finishStage("prep")\<close>.
\<close>

theorem stage_entered_by_predecessor_end_witness:
  "(prep, [StageStart (Some win) 3, StageEnd (Some prep) 2])
     \<in> set (drive [prep, win] (trigger [prep, win] scenario_handle)) \<and>
   Some win \<in> set (start_payloads [StageStart (Some win) 3, StageEnd (Some prep) 2]) \<and>
   distinct [prep, win] \<and> Suc 0 < length [prep, win] \<and>
   Some win = Some ([prep, win] ! Suc 0) \<and> prep = [prep, win] ! 0"
proof -
  have h1: "(prep, [StageStart (Some win) 3, StageEnd (Some prep) 2])
     \<in> set (drive [prep, win] (trigger [prep, win] scenario_handle))"
    by (simp add: scenario_handle_def api_defs)
  have h2: "Some win \<in> set (start_payloads [StageStart (Some win) 3, StageEnd (Some prep) 2])"
    by (simp add: start_payloads_def)
  from stage_entered_by_predecessor_end[OF h1 h2]
  have "distinct [prep, win] \<longrightarrow>
      (\<forall>i. Suc i < length [prep, win] \<and> Some win = Some ([prep, win] ! Suc i) \<longrightarrow>
        prep = [prep, win] ! i)"
    by blast
  then have "prep = [prep, win] ! 0" by simp
  with h1 h2 show ?thesis by simp
qed

subsection \<open>The transition definition runs once\<close>

lemma sm_exec_sm_startEv:
  "sm_startEv (sm_exec c s) = sm_startEv s @ registration c"
  by (cases c)
    (simp_all add: onStart_def defineStage_def kev_add_def enterStage_trace callPrompt_def
      callInput_def kev_trigger_def fold_fire)

lemma sm_exec_sm_endEv:
  "sm_endEv (sm_exec c s) = sm_endEv s"
  by (cases c)
    (simp_all add: onStart_def defineStage_def enterStage_trace callPrompt_def
      callInput_def kev_trigger_def fold_fire)

lemma fold_sm_exec_channels:
  "sm_startEv (fold sm_exec cs s) = sm_startEv s @ registrations cs \<and>
   sm_endEv (fold sm_exec cs s) = sm_endEv s"
  by (induction cs arbitrary: s)
    (simp_all add: registrations_def sm_exec_sm_startEv sm_exec_sm_endEv)

lemma api_exec_sm_startEv:
  "sm_startEv (api_exec c s) = sm_startEv s"
  by (cases c)
    (simp_all add: enterStage_trace callPrompt_def callInput_def kev_trigger_def fold_fire
      onStageStart_def onStageEnd_def onPromptTime_def onInputPromptTime_def
      onTransitionEnd_def)

lemma fold_api_exec_sm_startEv:
  "sm_startEv (fold api_exec cs s) = sm_startEv s"
  by (induction cs arbitrary: s) (simp_all add: api_exec_sm_startEv)

text \<open>
  Claim C8. \<open>createTransition\<close> runs the transition definition once, on the state in
  which the channels exist and the advancement listener is subscribed: the internal start
  channel of the new handle holds the definition's registrations, each once and in order,
  and a definition that calls \<open>finishStage\<close> already reaches the advancement listener
  (which pauses the camera node of the still empty sequence). No later call of the handle
  or of the stage manager's dispatching methods changes the registrations.
\<close>

theorem transition_definition_runs_once:
  "sm_startEv (createTransition transAction) = registrations transAction \<and>
   sm_endEv (createTransition transAction) = [AdvanceL] \<and>
   sm_startEv (fold api_exec calls (createTransition transAction)) = registrations transAction \<and>
   paused (createTransition [FinishStage prep]) \<and> \<not> paused (createTransition [])"
proof -
  have "paused (createTransition [FinishStage prep]) \<and> \<not> paused (createTransition [])"
    by (simp add: api_defs)
  moreover
  have "sm_startEv (createTransition transAction) = registrations transAction"
    by (simp add: createTransition_def Let_def fold_sm_exec_channels newTransition_def)
  moreover have "sm_endEv (createTransition transAction) = [AdvanceL]"
    by (simp add: createTransition_def Let_def fold_sm_exec_channels newTransition_def
        kev_add_def)
  ultimately show ?thesis
    by (simp add: fold_api_exec_sm_startEv)
qed

subsection \<open>Beats of the conductor\<close>









end
